theory Spec2Isabelle
  imports Main
begin

section \<open>Python values used by HW2\_template.py\<close>

text \<open>
  Python integers are unbounded, so they are \<^typ>\<open>int\<close>. A tuple of integers is the list
  of its components; the tuple \<open>(a, b)\<close> that the stepper records is \<open>[a, b]\<close>.
  A value that is either a tuple or Python's \<open>None\<close> is an \<open>option\<close>, with
  \<open>None\<close> for Python's \<open>None\<close>.
\<close>

type_synonym step = "int list"

datatype py_error = IndexError | TypeError

text \<open>
  Subscripting \<open>xs[i]\<close> of a list or a tuple: an index below zero counts from the end, and
  an index outside the sequence raises \<open>IndexError\<close>.
\<close>

definition py_getitem :: "'a list \<Rightarrow> int \<Rightarrow> py_error + 'a" where
  "py_getitem xs i =
     (if 0 \<le> i \<and> i < int (length xs) then Inr (xs ! nat i)
      else if i < 0 \<and> - int (length xs) \<le> i then Inr (xs ! nat (int (length xs) + i))
      else Inl IndexError)"

text \<open>Subscripting a value that may be \<open>None\<close>: \<open>None[i]\<close> raises \<open>TypeError\<close>.\<close>

fun subscript :: "step option \<Rightarrow> int \<Rightarrow> py_error + int" where
  "subscript None i = Inl TypeError"
| "subscript (Some t) i = py_getitem t i"

text \<open>
  Truth value of the argument of \<open>if k_step:\<close>. \<open>None\<close> is false, and a tuple is true
  exactly when it is not empty.
\<close>

fun truthy :: "step option \<Rightarrow> bool" where
  "truthy None = False"
| "truthy (Some t) = (t \<noteq> [])"

text \<open>
  Rendering of an integer in an f-string, which is \<open>str\<close>: decimal digits, most significant
  first, no leading zeros, and a minus sign before a negative number.
\<close>

definition digit_char :: "nat \<Rightarrow> char" where
  "digit_char d = ''0123456789'' ! d"

fun str_nat :: "nat \<Rightarrow> string" where
  "str_nat n = (if n < 10 then [digit_char n] else str_nat (n div 10) @ [digit_char (n mod 10)])"

declare str_nat.simps [simp del]

definition str_int :: "int \<Rightarrow> string" where
  "str_int i = (if i < 0 then CHR ''-'' # str_nat (nat (- i)) else str_nat (nat i))"

section \<open>The program\<close>

subsection \<open>compute\_gcd\<close>

text \<open>
  The \<open>while True\<close> loop of \<open>compute_gcd\<close>, with the list \<open>s\<close> built so far as an
  argument. Each iteration appends \<open>(a, b)\<close> first and then either leaves the loop
  (\<open>b == 0\<close>), swaps (\<open>a < b\<close>) or divides. Python's \<open>%\<close> takes the sign of the divisor,
  as \<open>mod\<close> on \<^typ>\<open>int\<close> does. Nothing in the source bounds the number of iterations, so
  the result is an \<open>option\<close> and \<open>None\<close> stands for a loop that never ends.
\<close>

partial_function (option) compute_gcd_loop ::
  "int \<Rightarrow> int \<Rightarrow> step list \<Rightarrow> (int \<times> step list) option" where
  "compute_gcd_loop a b s =
     (let s' = s @ [[a, b]] in
      if b = 0 then Some (a, s')
      else if a < b then compute_gcd_loop b a s'
      else compute_gcd_loop b (a mod b) s')"

definition compute_gcd :: "int \<Rightarrow> int \<Rightarrow> (int \<times> step list) option" where
  "compute_gcd a b = compute_gcd_loop a b []"

subsection \<open>get\_k\_step\<close>

definition get_k_step :: "'a list \<Rightarrow> int \<Rightarrow> py_error + 'a option" where
  "get_k_step steps k =
     (if k > int (length steps) \<or> k \<le> 0 then Inr None
      else case py_getitem steps (k - 1) of
             Inl e \<Rightarrow> Inl e
           | Inr v \<Rightarrow> Inr (Some v))"

subsection \<open>construct\_response\_string\<close>

definition construct_response_string :: "int \<Rightarrow> int \<Rightarrow> step option \<Rightarrow> py_error + string" where
  "construct_response_string gcd_value depth k_step =
     (if truthy k_step then
        case subscript k_step 0 of
          Inl e \<Rightarrow> Inl e
        | Inr x \<Rightarrow>
            (case subscript k_step 1 of
               Inl e \<Rightarrow> Inl e
             | Inr y \<Rightarrow>
                 Inr (str_int gcd_value @ '','' @ str_int depth @ '','' @ str_int x @ '','' @ str_int y))
      else Inr (str_int gcd_value @ '','' @ str_int depth @ '',None''))"

subsection \<open>compute\_sha256\<close>

text \<open>
  The body of \<open>compute_sha256\<close> is the single statement \<open>pass\<close>, so every call returns
  Python's \<open>None\<close> and no string.
\<close>

definition compute_sha256 :: "string \<Rightarrow> string \<Rightarrow> string \<Rightarrow> string option" where
  "compute_sha256 wsuid sk response_string = None"

subsection \<open>gcd\_with\_sha256 and the body of the test loop\<close>

text \<open>
  The outer \<open>option\<close> is \<open>None\<close> when the loop of \<open>compute_gcd\<close> does not end; inside it,
  \<open>Inl\<close> is an exception raised by one of the calls.
\<close>

definition gcd_with_sha256 ::
  "int \<Rightarrow> int \<Rightarrow> int \<Rightarrow> string \<Rightarrow> string \<Rightarrow>
     (py_error + (int \<times> int \<times> step option \<times> string option)) option" where
  "gcd_with_sha256 a b k wsuid sk =
     (case compute_gcd a b of
        None \<Rightarrow> None
      | Some (gcd_value, steps) \<Rightarrow>
          Some (let depth = int (length steps) in
                case get_k_step steps k of
                  Inl e \<Rightarrow> Inl e
                | Inr k_step \<Rightarrow>
                    (case construct_response_string gcd_value depth k_step of
                       Inl e \<Rightarrow> Inl e
                     | Inr response_string \<Rightarrow>
                         (let sha256_hash = compute_sha256 wsuid sk response_string
                          in Inr (gcd_value, depth, k_step, sha256_hash)))))"

text \<open>
  One iteration of the loop in \<open>test_gcd_with_sha256\<close>: the string \<open>actual_response\<close> that
  is compared with the expected one.
\<close>

definition actual_response :: "int \<Rightarrow> int \<Rightarrow> int \<Rightarrow> (py_error + string) option" where
  "actual_response a b k =
     (case compute_gcd a b of
        None \<Rightarrow> None
      | Some (gcd_value, steps) \<Rightarrow>
          Some (let depth = int (length steps) in
                case get_k_step steps k of
                  Inl e \<Rightarrow> Inl e
                | Inr k_step \<Rightarrow> construct_response_string gcd_value depth k_step))"

section \<open>Notions used in the statements\<close>

text \<open>
  A recorded pair is good for \<open>g\<close> when it has two non-negative components whose
  greatest common divisor is \<open>g\<close>.
\<close>

definition good_step :: "int \<Rightarrow> step \<Rightarrow> bool" where
  "good_step g p = (case p of [x, y] \<Rightarrow> 0 \<le> x \<and> 0 \<le> y \<and> gcd x y = g | _ \<Rightarrow> False)"

text \<open>
  \<open>euclid_step p q\<close>: the pair \<open>q\<close> is what one iteration of the loop makes of the
  pair \<open>p\<close>, which did not end the loop.
\<close>

definition euclid_step :: "step \<Rightarrow> step \<Rightarrow> bool" where
  "euclid_step p q =
     (case p of
        [x, y] \<Rightarrow> y \<noteq> 0 \<and> q = (if x < y then [y, x] else [y, x mod y])
      | _ \<Rightarrow> False)"

text \<open>The number that a string of decimal digits denotes.\<close>

definition digit_value :: "char \<Rightarrow> nat" where
  "digit_value c = of_char c - 48"

definition decimal_value :: "string \<Rightarrow> nat" where
  "decimal_value cs = foldl (\<lambda>v c. 10 * v + digit_value c) 0 cs"

section \<open>Supporting facts\<close>

subsection \<open>Decimal rendering\<close>

lemma digit_char_in_digits: "d < 10 \<Longrightarrow> digit_char d \<in> set ''0123456789''"
  unfolding digit_char_def by (rule nth_mem) simp

lemma str_nat_not_empty: "str_nat n \<noteq> []"
  by (subst str_nat.simps) simp

lemma last_str_nat: "last (str_nat n) = digit_char (n mod 10)"
  by (subst str_nat.simps) simp

lemma set_str_nat: "set (str_nat n) \<subseteq> set ''0123456789''"
proof (induction n rule: str_nat.induct)
  case (1 n)
  have d: "digit_char (n mod 10) \<in> set ''0123456789''"
    by (rule digit_char_in_digits) simp
  show ?case
  proof (cases "n < 10")
    case True
    then have "str_nat n = [digit_char (n mod 10)]"
      by (subst str_nat.simps) simp
    with d show ?thesis by simp
  next
    case False
    then have "str_nat n = str_nat (n div 10) @ [digit_char (n mod 10)]"
      by (subst str_nat.simps) simp
    with d "1.IH" [OF False] show ?thesis by simp
  qed
qed

lemma str_int_not_empty: "str_int i \<noteq> []"
  by (simp add: str_int_def str_nat_not_empty)

lemma last_str_int: "last (str_int i) \<in> set ''0123456789''"
proof -
  have "last (str_int i) = digit_char (nat \<bar>i\<bar> mod 10)"
    by (simp add: str_int_def str_nat_not_empty last_str_nat abs_if)
  then show ?thesis by (simp only: digit_char_in_digits [of "nat \<bar>i\<bar> mod 10"] pos_mod_bound)
qed

lemma comma_not_in_str_int: "CHR '','' \<notin> set (str_int i)"
  using set_str_nat [of "nat i"] set_str_nat [of "nat (- i)"]
  by (auto simp: str_int_def)

text \<open>
  The rendering is the decimal numeral of the number: it denotes the number, and it
  starts with a zero only when the number is zero.
\<close>

lemma digit_value_digit_char:
  assumes "d < 10"
  shows "digit_value (digit_char d) = d"
proof -
  from assms have "d \<in> {0, 1, 2, 3, 4, 5, 6, 7, 8, 9}" by auto
  then show ?thesis by (auto simp: digit_value_def digit_char_def)
qed

lemma decimal_value_str_nat: "decimal_value (str_nat n) = n"
proof (induction n rule: str_nat.induct)
  case (1 n)
  show ?case
  proof (cases "n < 10")
    case True
    then show ?thesis
      by (subst str_nat.simps) (simp add: decimal_value_def digit_value_digit_char)
  next
    case False
    have "decimal_value (str_nat n) = 10 * decimal_value (str_nat (n div 10)) + n mod 10"
      using False by (subst str_nat.simps) (simp add: decimal_value_def digit_value_digit_char)
    with "1.IH" [OF False] show ?thesis by simp
  qed
qed

lemma hd_str_nat:
  assumes "0 < n"
  shows "hd (str_nat n) \<noteq> CHR ''0''"
  using assms
proof (induction n rule: str_nat.induct)
  case (1 n)
  show ?case
  proof (cases "n < 10")
    case True
    with "1.prems" have "n \<in> {1, 2, 3, 4, 5, 6, 7, 8, 9}" by auto
    then show ?thesis by (subst str_nat.simps) (auto simp: digit_char_def)
  next
    case False
    then have "0 < n div 10" by simp
    from "1.IH" [OF False this] False show ?thesis
      by (subst str_nat.simps) (simp add: str_nat_not_empty)
  qed
qed

lemma str_int_nonneg: "0 \<le> i \<Longrightarrow> decimal_value (str_int i) = nat i"
  by (simp add: str_int_def decimal_value_str_nat)

lemma str_int_neg: "i < 0 \<Longrightarrow> str_int i = CHR ''-'' # str_int (- i)"
  by (simp add: str_int_def)

subsection \<open>The selector and the formatter on recorded pairs\<close>

lemma get_k_step_eq:
  "get_k_step steps k =
     (if k \<le> 0 \<or> int (length steps) < k then Inr None else Inr (Some (steps ! nat (k - 1))))"
  by (auto simp: get_k_step_def py_getitem_def)

lemma get_k_step_member:
  "get_k_step steps k = Inr (Some p) \<Longrightarrow> p \<in> set steps"
  by (auto simp: get_k_step_eq split: if_splits)

lemma construct_response_string_pair:
  "construct_response_string g d (Some [x, y]) =
     Inr (str_int g @ '','' @ str_int d @ '','' @ str_int x @ '','' @ str_int y)"
  by (simp add: construct_response_string_def py_getitem_def)

lemma construct_response_string_None:
  "construct_response_string g d None = Inr (str_int g @ '','' @ str_int d @ '',None'')"
  by (simp add: construct_response_string_def)

lemma pair_response_not_None_suffix:
  "str_int g @ '','' @ str_int d @ '','' @ str_int x @ '','' @ str_int y \<noteq> pre @ ''None''"
proof
  assume eq: "str_int g @ '','' @ str_int d @ '','' @ str_int x @ '','' @ str_int y = pre @ ''None''"
  have "last (str_int g @ '','' @ str_int d @ '','' @ str_int x @ '','' @ str_int y)
      = last (pre @ ''None'')"
    by (rule arg_cong [OF eq])
  then have "last (str_int y) = CHR ''e''"
    by (simp add: str_int_not_empty)
  with last_str_int [of y] show False by simp
qed

subsection \<open>The loop on non-negative arguments\<close>

lemma good_step_pair: "good_step g [x, y] = (0 \<le> x \<and> 0 \<le> y \<and> gcd x y = g)"
  by (simp add: good_step_def)

lemma good_stepE:
  assumes "good_step g p"
  obtains x y where "p = [x, y]" "0 \<le> x" "0 \<le> y" "gcd x y = g"
  using assms by (auto simp: good_step_def split: list.splits)

lemma euclid_step_pair:
  "euclid_step [x, y] q = (y \<noteq> 0 \<and> q = (if x < y then [y, x] else [y, x mod y]))"
  by (simp add: euclid_step_def)

lemma compute_gcd_loop_nonneg:
  assumes "0 \<le> a" and "0 \<le> b"
  shows "\<exists>t. compute_gcd_loop a b s = Some (gcd a b, s @ [a, b] # t)
            \<and> (\<forall>p \<in> set t. good_step (gcd a b) p)
            \<and> last ([a, b] # t) = [gcd a b, 0]
            \<and> successively euclid_step ([a, b] # t)
            \<and> length t \<le> nat b"
  using assms
proof (induction "nat b" arbitrary: a b s rule: less_induct)
  case less
  show ?case
  proof (cases "b = 0")
    case True
    with less.prems have "compute_gcd_loop a b s = Some (gcd a b, s @ [a, b] # [])"
      by (subst compute_gcd_loop.simps) simp
    with True less.prems show ?thesis by simp
  next
    case False
    with less.prems have bpos: "0 < b" by simp
    show ?thesis
    proof (cases "a < b")
      case True
      have unfold: "compute_gcd_loop a b s = compute_gcd_loop b a (s @ [[a, b]])"
        using False True by (subst compute_gcd_loop.simps) simp
      have lt: "nat a < nat b" using True less.prems by simp
      from less.hyps [OF lt, of b "s @ [[a, b]]"] less.prems
      obtain t where t: "compute_gcd_loop b a (s @ [[a, b]]) = Some (gcd b a, (s @ [[a, b]]) @ [b, a] # t)"
        "\<forall>p \<in> set t. good_step (gcd b a) p" "last ([b, a] # t) = [gcd b a, 0]"
        "successively euclid_step ([b, a] # t)" "length t \<le> nat a"
        by blast
      have g: "gcd b a = gcd a b" by (simp add: gcd.commute)
      have "compute_gcd_loop a b s = Some (gcd a b, s @ [a, b] # ([b, a] # t))"
        using unfold t(1) g by simp
      moreover have "\<forall>p \<in> set ([b, a] # t). good_step (gcd a b) p"
        using t(2) g less.prems by (simp add: good_step_pair)
      moreover have "last ([a, b] # [b, a] # t) = [gcd a b, 0]"
        using t(3) g by simp
      moreover have "successively euclid_step ([a, b] # [b, a] # t)"
        using t(4) False True by (simp add: euclid_step_pair)
      moreover have "length ([b, a] # t) \<le> nat b"
        using t(5) lt by (simp del: zless_nat_conj)
      ultimately show ?thesis by blast
    next
      case ge: False
      have unfold: "compute_gcd_loop a b s = compute_gcd_loop b (a mod b) (s @ [[a, b]])"
        using False ge by (subst compute_gcd_loop.simps) simp
      have m: "0 \<le> a mod b" "a mod b < b" using bpos by simp_all
      then have lt: "nat (a mod b) < nat b" by simp
      from less.hyps [OF lt, of b "s @ [[a, b]]"] less.prems m(1)
      obtain t where t: "compute_gcd_loop b (a mod b) (s @ [[a, b]])
            = Some (gcd b (a mod b), (s @ [[a, b]]) @ [b, a mod b] # t)"
        "\<forall>p \<in> set t. good_step (gcd b (a mod b)) p" "last ([b, a mod b] # t) = [gcd b (a mod b), 0]"
        "successively euclid_step ([b, a mod b] # t)" "length t \<le> nat (a mod b)"
        by blast
      have g: "gcd b (a mod b) = gcd a b" by (metis gcd_red_int)
      have "compute_gcd_loop a b s = Some (gcd a b, s @ [a, b] # ([b, a mod b] # t))"
        using unfold t(1) g by simp
      moreover have "\<forall>p \<in> set ([b, a mod b] # t). good_step (gcd a b) p"
        using t(2) g less.prems m(1) by (simp add: good_step_pair)
      moreover have "last ([a, b] # [b, a mod b] # t) = [gcd a b, 0]"
        using t(3) g by simp
      moreover have "successively euclid_step ([a, b] # [b, a mod b] # t)"
        using t(4) False ge by (simp add: euclid_step_pair)
      moreover have "length ([b, a mod b] # t) \<le> nat b"
        using t(5) lt by (simp del: zless_nat_conj)
      ultimately show ?thesis by blast
    qed
  qed
qed

lemma compute_gcd_nonneg:
  assumes "0 \<le> a" and "0 \<le> b"
  obtains t where "compute_gcd a b = Some (gcd a b, [a, b] # t)"
    and "\<forall>p \<in> set ([a, b] # t). good_step (gcd a b) p"
    and "last ([a, b] # t) = [gcd a b, 0]"
    and "successively euclid_step ([a, b] # t)"
    and "length t \<le> nat b"
proof -
  from compute_gcd_loop_nonneg [OF assms, of "[]"] obtain t
    where t: "compute_gcd_loop a b [] = Some (gcd a b, [] @ [a, b] # t)"
      "\<forall>p \<in> set t. good_step (gcd a b) p" "last ([a, b] # t) = [gcd a b, 0]"
      "successively euclid_step ([a, b] # t)" "length t \<le> nat b"
    by blast
  show thesis
  proof (rule that [of t])
    show "compute_gcd a b = Some (gcd a b, [a, b] # t)"
      using t(1) by (simp add: compute_gcd_def)
    show "\<forall>p \<in> set ([a, b] # t). good_step (gcd a b) p"
      using t(2) assms by (simp add: good_step_pair)
  qed (use t in simp_all)
qed

lemma good_step_length: "good_step g p \<Longrightarrow> length p = 2"
  by (erule good_stepE) simp

lemma length_2E:
  assumes "length (p :: 'a list) = 2"
  obtains x y where "p = [x, y]"
  using assms by (cases p; cases "tl p") auto

text \<open>
  On a list of pairs the selector returns \<open>None\<close> or one of the pairs, and the
  formatter raises nothing on what the selector returns.
\<close>

lemma select_and_format:
  assumes "\<forall>p \<in> set steps. length p = 2"
  obtains "get_k_step steps k = Inr None"
      "construct_response_string g d None = Inr (str_int g @ '','' @ str_int d @ '',None'')"
  | x y where "get_k_step steps k = Inr (Some [x, y])" "[x, y] \<in> set steps"
      "construct_response_string g d (Some [x, y]) =
         Inr (str_int g @ '','' @ str_int d @ '','' @ str_int x @ '','' @ str_int y)"
proof (cases "k \<le> 0 \<or> int (length steps) < k")
  case True
  then have "get_k_step steps k = Inr None" by (simp add: get_k_step_eq)
  then show thesis using that(1) construct_response_string_None by blast
next
  case False
  then have sel: "get_k_step steps k = Inr (Some (steps ! nat (k - 1)))"
    by (simp add: get_k_step_eq)
  then have mem: "steps ! nat (k - 1) \<in> set steps" by (rule get_k_step_member)
  with assms have "length (steps ! nat (k - 1)) = 2" by blast
  then obtain x y where xy: "steps ! nat (k - 1) = [x, y]" by (rule length_2E)
  show thesis
    using that(2) [of x y] sel mem xy construct_response_string_pair by simp
qed

subsection \<open>The loop on any arguments\<close>

text \<open>
  Whenever the loop returns, on arguments of any sign, it has appended a sequence of
  pairs that starts with \<open>(a, b)\<close>, in which each pair comes from the one before it by
  one iteration, and whose last pair is the returned value and zero.
\<close>

lemma compute_gcd_loop_returns:
  assumes run: "compute_gcd_loop a b s = Some r"
  shows "\<exists>t. snd r = s @ [a, b] # t \<and> (\<forall>p \<in> set t. length p = 2)
            \<and> last ([a, b] # t) = [fst r, 0] \<and> successively euclid_step ([a, b] # t)"
proof (rule compute_gcd_loop.raw_induct
    [OF _ run, where P = "\<lambda>a b s r. \<exists>t. snd r = s @ [a, b] # t \<and> (\<forall>p \<in> set t. length p = 2)
            \<and> last ([a, b] # t) = [fst r, 0] \<and> successively euclid_step ([a, b] # t)"])
  fix f :: "int \<Rightarrow> int \<Rightarrow> step list \<Rightarrow> (int \<times> step list) option" and a b s r
  assume IH: "\<And>a b s r. f a b s = Some r \<Longrightarrow>
      \<exists>t. snd r = s @ [a, b] # t \<and> (\<forall>p \<in> set t. length p = 2)
            \<and> last ([a, b] # t) = [fst r, 0] \<and> successively euclid_step ([a, b] # t)"
    and body: "(let s' = s @ [[a, b]] in
      if b = 0 then Some (a, s')
      else if a < b then f b a s'
      else f b (a mod b) s') = Some r"
  show "\<exists>t. snd r = s @ [a, b] # t \<and> (\<forall>p \<in> set t. length p = 2)
            \<and> last ([a, b] # t) = [fst r, 0] \<and> successively euclid_step ([a, b] # t)"
  proof (cases "b = 0")
    case True
    with body have "r = (a, s @ [[a, b]])" by (simp add: Let_def)
    with True show ?thesis by simp
  next
    case False
    define q where "q = (if a < b then [b, a] else [b, a mod b])"
    from body False have "f (hd q) (hd (tl q)) (s @ [[a, b]]) = Some r"
      by (simp add: Let_def q_def split: if_splits)
    from IH [OF this] obtain t where t: "snd r = (s @ [[a, b]]) @ [hd q, hd (tl q)] # t"
      "\<forall>p \<in> set t. length p = 2" "last ([hd q, hd (tl q)] # t) = [fst r, 0]"
      "successively euclid_step ([hd q, hd (tl q)] # t)"
      by blast
    have q: "[hd q, hd (tl q)] = q" by (simp add: q_def)
    have "euclid_step [a, b] q" using False by (simp add: euclid_step_pair q_def)
    with t show ?thesis unfolding q
      by (intro exI [of _ "q # t"]) (simp add: q_def)
  qed
qed

lemma compute_gcd_returns:
  assumes "compute_gcd a b = Some (g, steps)"
  obtains t where "steps = [a, b] # t" and "\<forall>p \<in> set steps. length p = 2"
    and "last steps = [g, 0]" and "successively euclid_step steps"
proof -
  from assms have "compute_gcd_loop a b [] = Some (g, steps)" by (simp add: compute_gcd_def)
  from compute_gcd_loop_returns [OF this] obtain t where
    "steps = [a, b] # t" "\<forall>p \<in> set t. length p = 2" "last ([a, b] # t) = [g, 0]"
    "successively euclid_step ([a, b] # t)"
    by auto
  then show thesis by (intro that [of t]) simp_all
qed

text \<open>
  The loop does not return on all arguments. From \<open>(-3, -1)\<close> it goes to \<open>(-1, -3)\<close> by
  the swap and back to \<open>(-3, -1)\<close> by the division, since \<open>-1 % -3\<close> is \<open>-1\<close>; the call
  \<open>compute_gcd(5, -3)\<close> reaches \<open>(-3, -1)\<close> after one iteration.
\<close>

lemma compute_gcd_loop_cycle:
  assumes run: "compute_gcd_loop a b s = Some r"
  shows "\<not> ((a = - 3 \<and> b = - 1) \<or> (a = - 1 \<and> b = - 3))"
proof (rule compute_gcd_loop.raw_induct
    [OF _ run, where P = "\<lambda>a b s r. \<not> ((a = - 3 \<and> b = - 1) \<or> (a = - 1 \<and> b = - 3))"])
  fix f :: "int \<Rightarrow> int \<Rightarrow> step list \<Rightarrow> (int \<times> step list) option" and a b s r
  assume IH: "\<And>a b s r. f a b s = Some r \<Longrightarrow> \<not> ((a = - 3 \<and> b = - 1) \<or> (a = - 1 \<and> b = - 3))"
    and body: "(let s' = s @ [[a, b]] in
      if b = 0 then Some (a, s')
      else if a < b then f b a s'
      else f b (a mod b) s') = Some r"
  show "\<not> ((a = - 3 \<and> b = - 1) \<or> (a = - 1 \<and> b = - 3))"
  proof
    assume "(a = - 3 \<and> b = - 1) \<or> (a = - 1 \<and> b = - 3)"
    then show False
    proof
      assume "a = - 3 \<and> b = - 1"
      with body have "f (- 1) (- 3) (s @ [[- 3, - 1]]) = Some r" by (simp add: Let_def)
      from IH [OF this] show False by simp
    next
      assume "a = - 1 \<and> b = - 3"
      with body have "f (- 3) (- 1) (s @ [[- 1, - 3]]) = Some r" by (simp add: Let_def)
      from IH [OF this] show False by simp
    qed
  qed
qed

lemma compute_gcd_5_minus_3: "compute_gcd 5 (- 3) = None"
proof (rule ccontr)
  assume "compute_gcd 5 (- 3) \<noteq> None"
  then obtain r where "compute_gcd_loop 5 (- 3) [] = Some r" by (auto simp: compute_gcd_def)
  then have "compute_gcd_loop (- 3) (- 1) [[5, - 3]] = Some r"
    by (subst (asm) compute_gcd_loop.simps) (simp add: Let_def)
  from compute_gcd_loop_cycle [OF this] show False by simp
qed

text \<open>The driver when \<open>compute_gcd\<close> returns.\<close>

lemma driver_on_result:
  assumes run: "compute_gcd a b = Some (g, steps)"
  obtains k_step response where
    "get_k_step steps k = Inr k_step"
    "construct_response_string g (int (length steps)) k_step = Inr response"
    "gcd_with_sha256 a b k wsuid sk
       = Some (Inr (g, int (length steps), k_step, compute_sha256 wsuid sk response))"
proof -
  from run have pairs: "\<forall>p \<in> set steps. length p = 2" by (rule compute_gcd_returns)
  from pairs obtain k_step response where
    sel: "get_k_step steps k = Inr k_step" and
    fmt: "construct_response_string g (int (length steps)) k_step = Inr response"
    by (rule select_and_format [of steps k g "int (length steps)"]) blast+
  have "gcd_with_sha256 a b k wsuid sk
      = Some (Inr (g, int (length steps), k_step, compute_sha256 wsuid sk response))"
    unfolding gcd_with_sha256_def run using sel fmt by (simp add: Let_def)
  with sel fmt show thesis by (rule that)
qed

text \<open>One iteration keeps a good pair good: the swap and the division both keep the gcd.\<close>

lemma euclid_step_keeps_good:
  assumes "good_step g p" and "euclid_step p q"
  shows "good_step g q"
proof -
  from assms(1) obtain x y where p: "p = [x, y]" and nn: "0 \<le> x" "0 \<le> y" and g: "gcd x y = g"
    by (rule good_stepE)
  from assms(2) p have y: "y \<noteq> 0" and q: "q = (if x < y then [y, x] else [y, x mod y])"
    by (simp_all add: euclid_step_pair)
  show ?thesis
  proof (cases "x < y")
    case True
    with q nn g show ?thesis by (simp add: good_step_pair gcd.commute)
  next
    case False
    from y nn have "0 \<le> x mod y" by simp
    moreover have "gcd y (x mod y) = gcd x y" by (metis gcd_red_int)
    ultimately show ?thesis using False q nn g by (simp add: good_step_pair)
  qed
qed

section \<open>The claims\<close>

subsection \<open>C1: the returned value is the greatest common divisor\<close>

text \<open>
  C1. For non-negative \<open>a\<close> and \<open>b\<close>, \<open>compute_gcd a b\<close> returns, and the first
  component \<open>g\<close> of its result is the greatest common divisor of \<open>a\<close> and \<open>b\<close>: it is
  \<open>gcd a b\<close>, it divides both arguments, every common divisor of two arguments that
  are not both zero is at most \<open>g\<close>, and \<open>g\<close> is \<open>a\<close> when \<open>b\<close> is zero.
\<close>

theorem compute_gcd_correct:
  assumes "0 \<le> a" and "0 \<le> b"
  shows "\<exists>g steps. compute_gcd a b = Some (g, steps)
           \<and> g = gcd a b \<and> g dvd a \<and> g dvd b
           \<and> (\<forall>d. d dvd a \<and> d dvd b \<and> (a \<noteq> 0 \<or> b \<noteq> 0) \<longrightarrow> d \<le> g)
           \<and> (b = 0 \<longrightarrow> g = a)"
proof -
  from assms obtain t where run: "compute_gcd a b = Some (gcd a b, [a, b] # t)"
    by (rule compute_gcd_nonneg)
  have largest: "d \<le> gcd a b" if "d dvd a \<and> d dvd b \<and> (a \<noteq> 0 \<or> b \<noteq> 0)" for d
  proof -
    from that have "d dvd gcd a b" by simp
    moreover from that have "0 < gcd a b" by auto
    ultimately show ?thesis by (rule zdvd_imp_le)
  qed
  have zero: "b = 0 \<longrightarrow> gcd a b = a" using assms by simp
  show ?thesis using run largest zero by auto
qed

theorem compute_gcd_correct_witness:
  "(0::int) \<le> 48 \<and> (0::int) \<le> 18
   \<and> (\<exists>steps. compute_gcd 48 18 = Some (6, steps)) \<and> (6::int) dvd 48 \<and> (6::int) dvd 18
   \<and> (3::int) dvd 48 \<and> (3::int) dvd 18 \<and> (3::int) \<le> 6"
proof -
  have g: "gcd (48::int) 18 = 6" by (simp add: gcd_non_0_int)
  show ?thesis using compute_gcd_correct [of 48 18] by (auto simp: g)
qed

subsection \<open>C2: the loop ends on non-negative arguments\<close>

text \<open>
  C2. For non-negative \<open>a\<close> and \<open>b\<close> the loop of \<open>compute_gcd\<close> returns, whatever list
  it starts from, and so does \<open>compute_gcd\<close>. The second component of the pair gets
  smaller in every iteration, so at most \<open>b + 1\<close> pairs are recorded.
\<close>

theorem compute_gcd_terminates:
  assumes "0 \<le> a" and "0 \<le> b"
  shows "(\<exists>r. compute_gcd_loop a b s = Some r)
       \<and> (\<exists>g steps. compute_gcd a b = Some (g, steps) \<and> length steps \<le> nat b + 1)"
proof
  from compute_gcd_loop_nonneg [OF assms, of s]
  show "\<exists>r. compute_gcd_loop a b s = Some r" by blast
next
  from assms obtain t where "compute_gcd a b = Some (gcd a b, [a, b] # t)" "length t \<le> nat b"
    by (rule compute_gcd_nonneg)
  then show "\<exists>g steps. compute_gcd a b = Some (g, steps) \<and> length steps \<le> nat b + 1"
    by simp
qed

theorem compute_gcd_terminates_witness:
  "(0::int) \<le> 56 \<and> (0::int) \<le> 98
   \<and> (\<exists>r. compute_gcd_loop 56 98 [[1, 2]] = Some r)
   \<and> (\<exists>g steps. compute_gcd 56 98 = Some (g, steps) \<and> length steps \<le> 99)"
  using compute_gcd_terminates [of 56 98 "[[1, 2]]"] by simp

subsection \<open>C3: the selector\<close>

text \<open>
  C3. \<open>get_k_step steps k\<close> returns \<open>None\<close> exactly when \<open>k \<le> 0\<close> or \<open>k\<close> is greater than
  the length of \<open>steps\<close>; for \<open>1 \<le> k \<le> length steps\<close> it returns the element at
  position \<open>k - 1\<close>, counted from zero; it raises no exception.
\<close>

theorem get_k_step_contract:
  "(get_k_step steps k = Inr None \<longleftrightarrow> k \<le> 0 \<or> k > int (length steps))
   \<and> (1 \<le> k \<and> k \<le> int (length steps) \<longrightarrow> get_k_step steps k = Inr (Some (steps ! nat (k - 1))))
   \<and> (\<forall>e. get_k_step steps k \<noteq> Inl e)"
  by (auto simp: get_k_step_eq)

theorem get_k_step_contract_witness:
  "(1::int) \<le> 3 \<and> (3::int) \<le> int (length [[48, 18], [18, 12], [12, 6], [6, 0::int]])
   \<and> get_k_step [[48, 18], [18, 12], [12, 6], [6, 0::int]] 3 = Inr (Some [12, 6])
   \<and> get_k_step [[48, 18], [18, 12], [12, 6], [6, 0::int]] 5 = Inr None
   \<and> get_k_step [[48, 18], [18, 12], [12, 6], [6, 0::int]] 0 = Inr None"
  using get_k_step_contract [of "[[48, 18], [18, 12], [12, 6], [6, 0::int]]" 3]
    get_k_step_contract [of "[[48, 18], [18, 12], [12, 6], [6, 0::int]]" 5]
    get_k_step_contract [of "[[48, 18], [18, 12], [12, 6], [6, 0::int]]" 0]
  by simp

subsection \<open>C4: the formatter\<close>

text \<open>
  C4. For integers \<open>g\<close> and \<open>d\<close>: on a step that is the pair \<open>(x, y)\<close>,
  \<open>construct_response_string\<close> returns the decimal renderings of \<open>g\<close>, \<open>d\<close>, \<open>x\<close> and
  \<open>y\<close> with one comma between neighbours; on the absent step it returns the
  renderings of \<open>g\<close> and \<open>d\<close>, each followed by a comma, and then \<open>None\<close>. The
  renderings contain no comma themselves.
\<close>

theorem construct_response_string_format:
  "construct_response_string g d (Some [x, y])
     = Inr (str_int g @ '','' @ str_int d @ '','' @ str_int x @ '','' @ str_int y)
   \<and> construct_response_string g d None = Inr (str_int g @ '','' @ str_int d @ '','' @ ''None'')
   \<and> CHR '','' \<notin> set (str_int g) \<union> set (str_int d) \<union> set (str_int x) \<union> set (str_int y)
   \<and> construct_response_string 6 4 (Some [12, 6]) = Inr ''6,4,12,6''
   \<and> construct_response_string (- 7) 10 None = Inr ''-7,10,None''"
proof -
  have "construct_response_string 6 4 (Some [12, 6]) = Inr ''6,4,12,6''"
    by (simp add: construct_response_string_pair str_int_def str_nat.simps digit_char_def)
  moreover have "construct_response_string (- 7) 10 None = Inr ''-7,10,None''"
    by (simp add: construct_response_string_None str_int_def str_nat.simps digit_char_def)
  ultimately show ?thesis
    by (simp add: construct_response_string_pair construct_response_string_None
        comma_not_in_str_int)
qed

subsection \<open>C5: the hasher\<close>

text \<open>
  C5 says that \<open>compute_sha256\<close> returns the hexadecimal SHA-256 digest of the three
  strings joined in order. The function in the source has no body but \<open>pass\<close>: on
  every input, here a student number, a key and the response of the first test case,
  it returns \<open>None\<close>, which is no string at all.
\<close>

theorem compute_sha256_returns_no_digest:
  "compute_sha256 ''11223344'' ''secret'' ''6,4,12,6'' = None
   \<and> (\<forall>digest. compute_sha256 ''11223344'' ''secret'' ''6,4,12,6'' \<noteq> Some digest)"
  by (simp add: compute_sha256_def)

subsection \<open>C6: the driver\<close>

text \<open>
  C6. For all \<open>a\<close>, \<open>b\<close>, \<open>k\<close>, \<open>wsuid\<close> and \<open>sk\<close>, the driver is the composition of the
  stepper, the selector, the formatter and the hasher. Whenever \<open>compute_gcd a b\<close>
  returns \<open>(g, steps)\<close>, the selector and the formatter raise nothing and the driver
  returns \<open>g\<close>, the length of \<open>steps\<close>, the selected step and the hash of the formatted
  response; when \<open>compute_gcd a b\<close> does not return, neither does the driver; and
  \<open>compute_gcd a b\<close> returns when \<open>a\<close> and \<open>b\<close> are not negative.
\<close>

theorem gcd_with_sha256_composition:
  "(\<forall>g steps. compute_gcd a b = Some (g, steps) \<longrightarrow>
      (\<exists>k_step response.
           get_k_step steps k = Inr k_step
         \<and> construct_response_string g (int (length steps)) k_step = Inr response
         \<and> gcd_with_sha256 a b k wsuid sk
             = Some (Inr (g, int (length steps), k_step, compute_sha256 wsuid sk response))))
   \<and> (compute_gcd a b = None \<longrightarrow> gcd_with_sha256 a b k wsuid sk = None)
   \<and> (0 \<le> a \<and> 0 \<le> b \<longrightarrow> compute_gcd a b \<noteq> None)"
proof (intro conjI allI impI)
  fix g steps
  assume "compute_gcd a b = Some (g, steps)"
  then obtain k_step response where
    "get_k_step steps k = Inr k_step"
    "construct_response_string g (int (length steps)) k_step = Inr response"
    "gcd_with_sha256 a b k wsuid sk
       = Some (Inr (g, int (length steps), k_step, compute_sha256 wsuid sk response))"
    by (rule driver_on_result)
  then show "\<exists>k_step response.
           get_k_step steps k = Inr k_step
         \<and> construct_response_string g (int (length steps)) k_step = Inr response
         \<and> gcd_with_sha256 a b k wsuid sk
             = Some (Inr (g, int (length steps), k_step, compute_sha256 wsuid sk response))"
    by blast
next
  assume "compute_gcd a b = None"
  then show "gcd_with_sha256 a b k wsuid sk = None" by (simp add: gcd_with_sha256_def)
next
  assume "0 \<le> a \<and> 0 \<le> b"
  then obtain t where "compute_gcd a b = Some (gcd a b, [a, b] # t)"
    by (blast intro: compute_gcd_nonneg)
  then show "compute_gcd a b \<noteq> None" by simp
qed

theorem gcd_with_sha256_composition_witness:
  "compute_gcd 48 18 = Some (6, [[48, 18], [18, 12], [12, 6], [6, 0]])
   \<and> get_k_step [[48, 18], [18, 12], [12, 6], [6, 0 :: int]] 3 = Inr (Some [12, 6])
   \<and> construct_response_string 6 4 (Some [12, 6]) = Inr ''6,4,12,6''
   \<and> gcd_with_sha256 48 18 3 ''11223344'' ''secret''
        = Some (Inr (6, 4, Some [12, 6], compute_sha256 ''11223344'' ''secret'' ''6,4,12,6''))
   \<and> compute_gcd 5 (- 3) = None
   \<and> gcd_with_sha256 5 (- 3) 3 ''11223344'' ''secret'' = None
   \<and> (0::int) \<le> 48 \<and> (0::int) \<le> 18 \<and> compute_gcd 48 18 \<noteq> None"
proof -
  have run: "compute_gcd 48 18 = Some (6, [[48, 18], [18, 12], [12, 6], [6, 0]])"
    by (simp add: compute_gcd_def compute_gcd_loop.simps Let_def)
  have sel: "get_k_step [[48, 18], [18, 12], [12, 6], [6, 0 :: int]] 3 = Inr (Some [12, 6])"
    by (simp add: get_k_step_def py_getitem_def)
  have fmt: "construct_response_string 6 4 (Some [12, 6]) = Inr ''6,4,12,6''"
    by (simp add: construct_response_string_pair str_int_def str_nat.simps digit_char_def)
  from gcd_with_sha256_composition [of 48 18 3 "''11223344''" "''secret''"] run sel fmt
  have "gcd_with_sha256 48 18 3 ''11223344'' ''secret''
        = Some (Inr (6, 4, Some [12, 6], compute_sha256 ''11223344'' ''secret'' ''6,4,12,6''))"
    by simp
  moreover from gcd_with_sha256_composition [of 5 "- 3" 3 "''11223344''" "''secret''"]
  have "gcd_with_sha256 5 (- 3) 3 ''11223344'' ''secret'' = None"
    by (simp add: compute_gcd_5_minus_3)
  ultimately show ?thesis using run sel fmt by (simp add: compute_gcd_5_minus_3)
qed

subsection \<open>C7: five of the fixed test cases\<close>

text \<open>
  C7. The response string computed in the test loop is the expected one in the
  cases \<open>(48, 18, 3)\<close>, \<open>(56, 98, 2)\<close>, \<open>(1000000, 500000, 3)\<close>, \<open>(84, 36, 3)\<close> and
  \<open>(27, 81, 2)\<close>.
\<close>

theorem test_cases_pass:
  "actual_response 48 18 3 = Some (Inr ''6,4,12,6'')
   \<and> actual_response 56 98 2 = Some (Inr ''14,5,98,56'')
   \<and> actual_response 1000000 500000 3 = Some (Inr ''500000,2,None'')
   \<and> actual_response 84 36 3 = Some (Inr ''12,3,12,0'')
   \<and> actual_response 27 81 2 = Some (Inr ''27,3,81,27'')"
proof -
  note defs = actual_response_def compute_gcd_def compute_gcd_loop.simps Let_def
    get_k_step_def py_getitem_def construct_response_string_def
    str_int_def str_nat.simps digit_char_def
  have "actual_response 48 18 3 = Some (Inr ''6,4,12,6'')" by (simp add: defs)
  moreover have "actual_response 56 98 2 = Some (Inr ''14,5,98,56'')" by (simp add: defs)
  moreover have "actual_response 1000000 500000 3 = Some (Inr ''500000,2,None'')"
    by (simp add: defs)
  moreover have "actual_response 84 36 3 = Some (Inr ''12,3,12,0'')" by (simp add: defs)
  moreover have "actual_response 27 81 2 = Some (Inr ''27,3,81,27'')" by (simp add: defs)
  ultimately show ?thesis by blast
qed

subsection \<open>C8: the shape of the step sequence\<close>

text \<open>
  C8. For non-negative \<open>a\<close> and \<open>b\<close> the sequence returned by \<open>compute_gcd a b\<close> is not
  empty, its first element is the pair \<open>(a, b)\<close>, the second component of its last
  element is zero, and the depth in the result of the driver is its length. When \<open>b\<close>
  is zero the sequence is the single pair \<open>(a, 0)\<close> and the gcd value is \<open>a\<close>.
\<close>

theorem compute_gcd_steps_shape:
  assumes "0 \<le> a" and "0 \<le> b"
  shows "\<exists>g steps. compute_gcd a b = Some (g, steps)
           \<and> steps \<noteq> [] \<and> hd steps = [a, b] \<and> (\<exists>x. last steps = [x, 0])
           \<and> (\<exists>k_step h. gcd_with_sha256 a b k wsuid sk
                 = Some (Inr (g, int (length steps), k_step, h)))
           \<and> (b = 0 \<longrightarrow> steps = [[a, 0]] \<and> g = a)"
proof -
  from assms obtain t where run: "compute_gcd a b = Some (gcd a b, [a, b] # t)"
    and good: "\<forall>p \<in> set ([a, b] # t). good_step (gcd a b) p"
    and final: "last ([a, b] # t) = [gcd a b, 0]"
    and len: "length t \<le> nat b"
    by (rule compute_gcd_nonneg)
  from run obtain k_step response where
    drv: "gcd_with_sha256 a b k wsuid sk
       = Some (Inr (gcd a b, int (length ([a, b] # t)), k_step, compute_sha256 wsuid sk response))"
    by (rule driver_on_result)
  have zero: "b = 0 \<longrightarrow> [a, b] # t = [[a, 0]] \<and> gcd a b = a"
    using len assms by auto
  show ?thesis
    using run final drv zero by (intro exI [of _ "gcd a b"] exI [of _ "[a, b] # t"]) simp
qed

theorem compute_gcd_steps_shape_witness:
  "(0::int) \<le> 7 \<and> (0::int) \<le> 0
   \<and> (\<exists>g steps. compute_gcd 7 0 = Some (g, steps)
           \<and> steps \<noteq> [] \<and> hd steps = [7, 0] \<and> (\<exists>x. last steps = [x, 0])
           \<and> (\<exists>k_step h. gcd_with_sha256 7 0 1 ''11223344'' ''secret''
                 = Some (Inr (g, int (length steps), k_step, h)))
           \<and> steps = [[7, 0]] \<and> g = 7)"
  using compute_gcd_steps_shape [of 7 0 1 "''11223344''" "''secret''"] by simp

subsection \<open>C9: every recorded pair has the gcd of the arguments\<close>

text \<open>
  C9. For non-negative \<open>a\<close> and \<open>b\<close>, every element of the sequence returned by
  \<open>compute_gcd a b\<close> is a pair \<open>(x, y)\<close> with \<open>gcd x y = gcd a b\<close>, and the gcd value
  returned is the first component of the last element. Each element after the first
  comes from the one before it by the swap or by the division, and both keep the
  greatest common divisor of a pair of non-negative numbers.
\<close>

theorem compute_gcd_invariant:
  assumes "0 \<le> a" and "0 \<le> b"
  shows "\<exists>g steps. compute_gcd a b = Some (g, steps)
           \<and> (\<forall>p \<in> set steps. \<exists>x y. p = [x, y] \<and> gcd x y = gcd a b)
           \<and> (\<exists>y. last steps = [g, y])
           \<and> successively euclid_step steps
           \<and> (\<forall>p q. good_step (gcd a b) p \<and> euclid_step p q \<longrightarrow> good_step (gcd a b) q)"
proof -
  from assms obtain t where run: "compute_gcd a b = Some (gcd a b, [a, b] # t)"
    and good: "\<forall>p \<in> set ([a, b] # t). good_step (gcd a b) p"
    and final: "last ([a, b] # t) = [gcd a b, 0]"
    and chain: "successively euclid_step ([a, b] # t)"
    by (rule compute_gcd_nonneg)
  have pairs: "\<forall>p \<in> set ([a, b] # t). \<exists>x y. p = [x, y] \<and> gcd x y = gcd a b"
  proof
    fix p assume "p \<in> set ([a, b] # t)"
    with good have "good_step (gcd a b) p" by blast
    then show "\<exists>x y. p = [x, y] \<and> gcd x y = gcd a b" by (rule good_stepE) blast
  qed
  have keeps: "\<forall>p q. good_step (gcd a b) p \<and> euclid_step p q \<longrightarrow> good_step (gcd a b) q"
    using euclid_step_keeps_good by blast
  from run pairs final chain keeps show ?thesis by blast
qed

theorem compute_gcd_invariant_witness:
  "(0::int) \<le> 56 \<and> (0::int) \<le> 98
   \<and> (\<exists>g steps. compute_gcd 56 98 = Some (g, steps)
           \<and> (\<forall>p \<in> set steps. \<exists>x y. p = [x, y] \<and> gcd x y = 14)
           \<and> (\<exists>y. last steps = [g, y])
           \<and> successively euclid_step steps
           \<and> (\<forall>p q. good_step 14 p \<and> euclid_step p q \<longrightarrow> good_step 14 q))"
proof -
  have g: "gcd (56::int) 98 = 14" by (simp add: gcd_non_0_int)
  show ?thesis
    using compute_gcd_invariant [of 56 98] unfolding g by simp
qed

subsection \<open>C10: the test on the truth value of the selected step\<close>

text \<open>
  C10. For non-negative \<open>a\<close> and \<open>b\<close> and any \<open>k\<close>: every pair recorded by
  \<open>compute_gcd a b\<close> is true as a condition, so the step that \<open>get_k_step\<close> selects is
  true exactly when it is not \<open>None\<close>, and the response of
  \<open>construct_response_string\<close> ends in \<open>None\<close> exactly when the selected step is
  \<open>None\<close>. On \<open>a = 0\<close>, \<open>b = 0\<close>, \<open>k = 1\<close> the response is \<open>0,1,0,0\<close>.
\<close>

theorem absence_branch_iff_None:
  assumes "0 \<le> a" and "0 \<le> b"
  shows "(\<exists>g steps k_step response.
            compute_gcd a b = Some (g, steps)
          \<and> (\<forall>p \<in> set steps. truthy (Some p))
          \<and> get_k_step steps k = Inr k_step
          \<and> (truthy k_step \<longleftrightarrow> k_step \<noteq> None)
          \<and> construct_response_string g (int (length steps)) k_step = Inr response
          \<and> ((\<exists>pre. response = pre @ ''None'') \<longleftrightarrow> k_step = None))
       \<and> actual_response 0 0 1 = Some (Inr ''0,1,0,0'')"
proof
  from assms obtain t where run: "compute_gcd a b = Some (gcd a b, [a, b] # t)"
    and good: "\<forall>p \<in> set ([a, b] # t). good_step (gcd a b) p"
    by (rule compute_gcd_nonneg)
  let ?g = "gcd a b" and ?steps = "[a, b] # t"
  have all_true: "\<forall>p \<in> set ?steps. truthy (Some p)"
  proof
    fix p assume "p \<in> set ?steps"
    with good have "good_step ?g p" by blast
    then show "truthy (Some p)" by (rule good_stepE) simp
  qed
  from good have "\<forall>p \<in> set ?steps. length p = 2"
    by (blast intro: good_step_length)
  then show "\<exists>g steps k_step response.
            compute_gcd a b = Some (g, steps)
          \<and> (\<forall>p \<in> set steps. truthy (Some p))
          \<and> get_k_step steps k = Inr k_step
          \<and> (truthy k_step \<longleftrightarrow> k_step \<noteq> None)
          \<and> construct_response_string g (int (length steps)) k_step = Inr response
          \<and> ((\<exists>pre. response = pre @ ''None'') \<longleftrightarrow> k_step = None)"
  proof (rule select_and_format [of ?steps k ?g "int (length ?steps)"])
    assume sel: "get_k_step ?steps k = Inr None"
      and fmt: "construct_response_string ?g (int (length ?steps)) None
          = Inr (str_int ?g @ '','' @ str_int (int (length ?steps)) @ '',None'')"
    have "\<exists>pre. str_int ?g @ '','' @ str_int (int (length ?steps)) @ '',None'' = pre @ ''None''"
      by (rule exI [of _ "str_int ?g @ '','' @ str_int (int (length ?steps)) @ '',''"]) simp
    with run all_true sel fmt show ?thesis
      by (intro exI [of _ ?g] exI [of _ ?steps] exI [of _ None]
          exI [of _ "str_int ?g @ '','' @ str_int (int (length ?steps)) @ '',None''"]) simp
  next
    fix x y
    assume sel: "get_k_step ?steps k = Inr (Some [x, y])"
      and fmt: "construct_response_string ?g (int (length ?steps)) (Some [x, y])
          = Inr (str_int ?g @ '','' @ str_int (int (length ?steps)) @ '','' @ str_int x @ '',''
                   @ str_int y)"
    have "\<not> (\<exists>pre. str_int ?g @ '','' @ str_int (int (length ?steps)) @ '','' @ str_int x @ '',''
                   @ str_int y = pre @ ''None'')"
      using pair_response_not_None_suffix by blast
    with run all_true sel fmt show ?thesis
      by (intro exI [of _ ?g] exI [of _ ?steps] exI [of _ "Some [x, y]"]
          exI [of _ "str_int ?g @ '','' @ str_int (int (length ?steps)) @ '','' @ str_int x @ '',''
                   @ str_int y"]) simp
  qed
next
  show "actual_response 0 0 1 = Some (Inr ''0,1,0,0'')"
    by (simp add: actual_response_def compute_gcd_def compute_gcd_loop.simps Let_def
        get_k_step_def py_getitem_def construct_response_string_def
        str_int_def str_nat.simps digit_char_def)
qed

theorem absence_branch_iff_None_witness:
  "(0::int) \<le> 0
   \<and> (\<exists>g steps k_step response.
            compute_gcd 0 0 = Some (g, steps)
          \<and> (\<forall>p \<in> set steps. truthy (Some p))
          \<and> get_k_step steps 1 = Inr k_step
          \<and> (truthy k_step \<longleftrightarrow> k_step \<noteq> None)
          \<and> construct_response_string g (int (length steps)) k_step = Inr response
          \<and> ((\<exists>pre. response = pre @ ''None'') \<longleftrightarrow> k_step = None))
   \<and> actual_response 0 0 1 = Some (Inr ''0,1,0,0'')"
  using absence_branch_iff_None [of 0 0 1] by simp

end
